theory Spec2Isabelle
  imports Main
begin

section \<open>The residual-log parser of \<open>read.py\<close>\<close>

text \<open>
  \<open>read_and_parse_dat\<close> scans a text file line by line, finds the header line (the first
  line containing \<open>Inner_Iter\<close>), skips the line after it, and converts every following
  line into a row: the first field with \<open>int\<close>, the others with \<open>float\<close>.
  The file is modelled as the list of its lines, each with or without its line
  terminator (trimming removes it). A Python \<open>str\<close> is a sequence of code points; the
  model covers the code points below 256, one \<open>char\<close> each. The table is the pair of the
  column names and the rows handed to \<open>pd.DataFrame\<close>.
\<close>

subsection \<open>String operations of Python used by the parser\<close>

text \<open>\<open>str.isspace\<close> on one character below 256: tab to carriage return, the four
  separators \<open>0x1C\<close> to \<open>0x1F\<close>, the space, \<open>0x85\<close> and \<open>0xA0\<close>.\<close>

definition is_space :: "char \<Rightarrow> bool" where
  "is_space c = (c \<in> set [CHR 0x09, CHR 0x0A, CHR 0x0B, CHR 0x0C, CHR 0x0D,
                           CHR 0x1C, CHR 0x1D, CHR 0x1E, CHR 0x1F, CHR 0x20,
                           CHR 0x85, CHR 0xA0])"

text \<open>\<open>s.strip()\<close>: whitespace removed at both ends.\<close>

definition strip :: "string \<Rightarrow> string" where
  "strip s = rev (dropWhile is_space (rev (dropWhile is_space s)))"

text \<open>\<open>s.split(sep)\<close> for a one-character separator: never empty, \<open>''''.split('|') = ['''']\<close>.\<close>

fun split_on :: "char \<Rightarrow> string \<Rightarrow> string list" where
  "split_on sep [] = [[]]"
| "split_on sep (c # cs) =
     (if c = sep then [] # split_on sep cs
      else (case split_on sep cs of
              [] \<Rightarrow> [[c]]
            | p # ps \<Rightarrow> (c # p) # ps))"

text \<open>\<open>s.startswith(p)\<close>.\<close>

fun startswith :: "string \<Rightarrow> string \<Rightarrow> bool" where
  "startswith s [] = True"
| "startswith [] (p # ps) = False"
| "startswith (c # cs) (p # ps) = (c = p \<and> startswith cs ps)"

text \<open>\<open>sub in s\<close>: the substring test.\<close>

fun contains :: "string \<Rightarrow> string \<Rightarrow> bool" where
  "contains sub [] = (sub = [])"
| "contains sub (c # cs) = (startswith (c # cs) sub \<or> contains sub cs)"

subsection \<open>The conversions \<open>int\<close> and \<open>float\<close>\<close>

text \<open>
  Both conversions are applied to trimmed fields only, where their own stripping of
  surrounding whitespace changes nothing; \<open>None\<close> stands for the \<open>ValueError\<close> they raise.
  Below code point 256 the only decimal digits are \<open>0\<close> to \<open>9\<close>.
\<close>

definition is_digit :: "char \<Rightarrow> bool" where
  "is_digit c = (c \<in> set ''0123456789'')"

definition digit_value :: "char \<Rightarrow> nat" where
  "digit_value c = of_char c - 48"

definition digits_value :: "string \<Rightarrow> nat" where
  "digits_value ds = foldl (\<lambda>acc c. 10 * acc + digit_value c) 0 ds"

text \<open>An optional sign in front: \<open>(negative, rest)\<close>.\<close>

fun split_sign :: "string \<Rightarrow> bool \<times> string" where
  "split_sign [] = (False, [])"
| "split_sign (c # cs) =
     (if c = CHR ''-'' then (True, cs)
      else if c = CHR ''+'' then (False, cs)
      else (False, c # cs))"

text \<open>
  \<open>int(s)\<close> in base 10: an optional sign, then groups of digits separated by single
  underscores (\<open>1_000\<close>); no group is empty. The configurable limit on the number of
  digits (\<open>sys.set_int_max_str_digits\<close>) is not modelled.
\<close>

definition py_int :: "string \<Rightarrow> int option" where
  "py_int s =
     (let (neg, body) = split_sign s;
          groups = split_on CHR ''_'' body
      in if list_all (\<lambda>g. g \<noteq> [] \<and> list_all is_digit g) groups
         then Some ((if neg then - 1 else 1) * int (digits_value (concat groups)))
         else None)"

text \<open>
  The value of a \<open>float\<close> is kept as the decimal number the text denotes, sign, digits and
  power of ten (\<open>1.5\<close> is \<open>Finite False 15 (- 1)\<close>), or as an infinity or a NaN; the
  rounding to a binary double is not modelled.
\<close>

datatype py_float_value = Finite bool nat int | Infinite bool | Not_a_number

text \<open>CPython's check of underscores in a numeric text: each one stands between two
  digits. \<open>prev\<close> is the character before, \<open>NUL\<close> at the start.\<close>

fun underscores_ok :: "char \<Rightarrow> string \<Rightarrow> bool" where
  "underscores_ok prev [] = (prev \<noteq> CHR ''_'')"
| "underscores_ok prev (c # cs) =
     ((if c = CHR ''_'' then is_digit prev
       else (prev = CHR ''_'' \<longrightarrow> is_digit c)) \<and> underscores_ok c cs)"

definition lower :: "char \<Rightarrow> char" where
  "lower c = (if c \<in> set ''ABCDEFGHIJKLMNOPQRSTUVWXYZ''
              then char_of (of_char c + (32::nat)) else c)"

text \<open>The exponent part after the mantissa: nothing, or \<open>e\<close>/\<open>E\<close>, an optional sign and
  at least one digit.\<close>

definition exponent :: "string \<Rightarrow> int option" where
  "exponent s =
     (case s of
        [] \<Rightarrow> Some 0
      | c # cs \<Rightarrow>
          if c = CHR ''e'' \<or> c = CHR ''E'' then
            (let (neg, ds) = split_sign cs
             in if ds \<noteq> [] \<and> list_all is_digit ds
                then Some ((if neg then - 1 else 1) * int (digits_value ds))
                else None)
          else None)"

text \<open>
  \<open>float(s)\<close>: after the underscore check and the removal of the underscores, an
  optional sign, then \<open>inf\<close>, \<open>infinity\<close> or \<open>nan\<close> in any case, or a decimal number:
  digits, an optional point with digits, at least one digit in all, an optional exponent.
\<close>

definition py_float :: "string \<Rightarrow> py_float_value option" where
  "py_float s =
     (if \<not> underscores_ok (CHR 0x00) s then None
      else
        let (neg, body) = split_sign (filter (\<lambda>c. c \<noteq> CHR ''_'') s);
            word = map lower body
        in if word = ''inf'' \<or> word = ''infinity'' then Some (Infinite neg)
           else if word = ''nan'' then Some Not_a_number
           else
             let ip = takeWhile is_digit body;
                 r1 = dropWhile is_digit body;
                 fp = (if startswith r1 ''.'' then takeWhile is_digit (tl r1) else []);
                 r2 = (if startswith r1 ''.'' then dropWhile is_digit (tl r1) else r1)
             in if ip = [] \<and> fp = [] then None
                else (case exponent r2 of
                        None \<Rightarrow> None
                      | Some e \<Rightarrow>
                          Some (Finite neg (digits_value (ip @ fp)) (e - int (length fp)))))"

subsection \<open>Rows, diagnostics and the scanner's state\<close>

datatype cell = Int_cell int | Float_cell py_float_value

text \<open>The two exceptions caught per row, with the offending field.\<close>

datatype value_error = Invalid_int string | Invalid_float string

text \<open>What the function prints: the header message and the two skip messages, each
  with the line number it reports.\<close>

datatype message =
    Header_found nat "string list"
  | Skipped_count nat nat nat
  | Skipped_invalid nat value_error

text \<open>
  What leaves the function as an exception: its two \<open>ValueError\<close>s (\<open>Header with
  'Inner_Iter' not found.\<close> and \<open>No valid data found after the header.\<close>), and the two
  exceptions the loop body does not catch: \<open>len(columns)\<close> with \<open>columns\<close> still
  \<open>None\<close>, and \<open>values[0]\<close> on an empty list.
\<close>

datatype error = Header_not_found | No_valid_data | Type_error | Index_error

record state =
  data :: "cell list list"
  columns :: "string list option"
  in_data_section :: bool
  line_number :: nat
  printed :: "message list"

record data_frame =
  frame_columns :: "string list"
  frame_rows :: "cell list list"

text \<open>The comprehension \<open>[x.strip() for x in s.split('|') if x.strip()]\<close>, used for
  the header and for every data line.\<close>

definition fields :: "string \<Rightarrow> string list" where
  "fields s = filter (\<lambda>p. p \<noteq> []) (map strip (split_on CHR ''|'' s))"

text \<open>\<open>[float(val) for val in vs]\<close>: the values, or the first field that fails.\<close>

fun floats :: "string list \<Rightarrow> value_error + py_float_value list" where
  "floats [] = Inr []"
| "floats (v # vs) =
     (case py_float v of
        None \<Rightarrow> Inl (Invalid_float v)
      | Some x \<Rightarrow> (case floats vs of Inl e \<Rightarrow> Inl e | Inr xs \<Rightarrow> Inr (x # xs)))"

text \<open>The expression \<open>[int(values[0])] + [float(val) for val in values[1:]]\<close>:
  \<open>None\<close> is the \<open>IndexError\<close> of \<open>values[0]\<close>.\<close>

fun parsed_values :: "string list \<Rightarrow> (value_error + cell list) option" where
  "parsed_values [] = None"
| "parsed_values (v # vs) =
     Some (case py_int v of
             None \<Rightarrow> Inl (Invalid_int v)
           | Some i \<Rightarrow>
               (case floats vs of
                  Inl e \<Rightarrow> Inl e
                | Inr xs \<Rightarrow> Inr (Int_cell i # map Float_cell xs)))"

subsection \<open>The loop and the function\<close>

text \<open>
  The loop \<open>for line in f\<close>, with \<open>f\<close> the lines not yet read. \<open>next(f, None)\<close> after the
  header takes one more line from the same iterator, if there is one, without counting it.
\<close>

function scan :: "state \<Rightarrow> string list \<Rightarrow> error + state" where
  "scan st [] = Inr st"
| "scan st (line # f) =
     (let st = st\<lparr>line_number := line_number st + 1\<rparr>;
          stripped_line = strip line
      in if contains ''Inner_Iter'' stripped_line \<and> \<not> in_data_section st then
           (let cols = fields stripped_line
            in scan (st\<lparr>columns := Some cols,
                        printed := printed st @ [Header_found (line_number st) cols],
                        in_data_section := True\<rparr>) (drop 1 f))
         else if in_data_section st then
           (if stripped_line = [] \<or> startswith stripped_line ''+'' then scan st f
            else
              (let values = fields stripped_line
               in case columns st of
                    None \<Rightarrow> Inl Type_error
                  | Some cols \<Rightarrow>
                      if length values \<noteq> length cols then
                        scan (st\<lparr>printed := printed st @
                                 [Skipped_count (line_number st) (length cols) (length values)]\<rparr>) f
                      else
                        (case parsed_values values of
                           None \<Rightarrow> Inl Index_error
                         | Some (Inr row) \<Rightarrow> scan (st\<lparr>data := data st @ [row]\<rparr>) f
                         | Some (Inl e) \<Rightarrow>
                             scan (st\<lparr>printed := printed st @
                                      [Skipped_invalid (line_number st) e]\<rparr>) f)))
         else scan st f)"
  by pat_completeness auto
termination
  by (relation "measure (\<lambda>(st, f). length f)") auto

definition initial :: state where
  "initial = \<lparr>data = [], columns = None, in_data_section = False, line_number = 0,
              printed = []\<rparr>"

text \<open>The function: the table, or the exception it ends with.\<close>

definition read_and_parse_dat :: "string list \<Rightarrow> error + data_frame" where
  "read_and_parse_dat ls =
     (case scan initial ls of
        Inl e \<Rightarrow> Inl e
      | Inr st \<Rightarrow>
          (case columns st of
             None \<Rightarrow> Inl Header_not_found
           | Some cols \<Rightarrow>
               if data st = [] then Inl No_valid_data
               else Inr \<lparr>frame_columns = cols, frame_rows = data st\<rparr>))"

text \<open>What the function has printed when it ends.\<close>

definition printed_messages :: "string list \<Rightarrow> message list" where
  "printed_messages ls = (case scan initial ls of Inl e \<Rightarrow> [] | Inr st \<Rightarrow> printed st)"

subsection \<open>The parts of the input, for the statements below\<close>

text \<open>The test the loop makes on a line while it looks for the header, and the schema
  it takes from the line.\<close>

definition has_marker :: "string \<Rightarrow> bool" where
  "has_marker line = contains ''Inner_Iter'' (strip line)"

definition header_columns :: "string \<Rightarrow> string list" where
  "header_columns line = fields (strip line)"

text \<open>What the loop body does with one line met in the data section, for the schema
  \<open>cols\<close>: the row it appends, if any.\<close>

definition row_of :: "string list \<Rightarrow> string \<Rightarrow> cell list option" where
  "row_of cols line =
     (let stripped_line = strip line; values = fields stripped_line
      in if stripped_line = [] \<or> startswith stripped_line ''+'' then None
         else if length values \<noteq> length cols then None
         else (case parsed_values values of
                 Some (Inr row) \<Rightarrow> Some row
               | _ \<Rightarrow> None))"

text \<open>And what it prints for that line when the line counter shows \<open>n\<close>.\<close>

definition message_of :: "string list \<Rightarrow> nat \<Rightarrow> string \<Rightarrow> message list" where
  "message_of cols n line =
     (let stripped_line = strip line; values = fields stripped_line
      in if stripped_line = [] \<or> startswith stripped_line ''+'' then []
         else if length values \<noteq> length cols then
           [Skipped_count n (length cols) (length values)]
         else (case parsed_values values of
                 Some (Inl e) \<Rightarrow> [Skipped_invalid n e]
               | _ \<Rightarrow> []))"

text \<open>The rows of a run of data lines, in the order of the lines.\<close>

fun rows_of :: "string list \<Rightarrow> string list \<Rightarrow> cell list list" where
  "rows_of cols [] = []"
| "rows_of cols (line # f) =
     (case row_of cols line of
        None \<Rightarrow> rows_of cols f
      | Some row \<Rightarrow> row # rows_of cols f)"

text \<open>The messages of a run of data lines that starts when the counter shows \<open>n\<close>.\<close>

fun messages_from :: "string list \<Rightarrow> nat \<Rightarrow> string list \<Rightarrow> message list" where
  "messages_from cols n [] = []"
| "messages_from cols n (line # f) =
     message_of cols (Suc n) line @ messages_from cols (Suc n) f"

text \<open>
  A valid data row in the words of the specification: the right number of fields, the
  first an integer, the others floats.
\<close>

definition spec_valid_row :: "string list \<Rightarrow> string \<Rightarrow> bool" where
  "spec_valid_row cols line =
     (let values = fields (strip line)
      in length values = length cols \<and>
         (case values of
            [] \<Rightarrow> False
          | v # vs \<Rightarrow> py_int v \<noteq> None \<and> list_all (\<lambda>x. py_float x \<noteq> None) vs))"

text \<open>
  A separator in the words of the specification: a line that is empty after trimming,
  or whose trimmed form starts with the rule-drawing character \<open>+\<close>. Every other line
  of the data section is a candidate row, and the valid data rows are the candidates
  that are valid.
\<close>

definition spec_separator :: "string \<Rightarrow> bool" where
  "spec_separator line = (strip line = [] \<or> startswith (strip line) ''+'')"

definition spec_valid_rows :: "string list \<Rightarrow> string list \<Rightarrow> string list" where
  "spec_valid_rows cols ls =
     filter (spec_valid_row cols) (filter (\<lambda>l. \<not> spec_separator l) ls)"

text \<open>The input from its header line on, the schema that line gives, the lines of the
  data section (after the header and the line skipped with it), and the rows they give.\<close>

definition from_header :: "string list \<Rightarrow> string list" where
  "from_header ls = dropWhile (\<lambda>l. \<not> has_marker l) ls"

definition schema :: "string list \<Rightarrow> string list" where
  "schema ls = (case from_header ls of [] \<Rightarrow> [] | hdr # rest \<Rightarrow> header_columns hdr)"

definition data_lines :: "string list \<Rightarrow> string list" where
  "data_lines ls = drop 2 (from_header ls)"

definition converted_rows :: "string list \<Rightarrow> cell list list" where
  "converted_rows ls = rows_of (schema ls) (data_lines ls)"

text \<open>The line number a message shows.\<close>

fun reported :: "message \<Rightarrow> nat" where
  "reported (Header_found n cols) = n"
| "reported (Skipped_count n expected got) = n"
| "reported (Skipped_invalid n e) = n"

section \<open>Strings: substrings, splitting and trimming\<close>

lemma split_on_not_Nil: "split_on sep s \<noteq> []"
  by (induction s) (auto split: list.splits)

lemma startswith_iff: "startswith s p \<longleftrightarrow> (\<exists>b. s = p @ b)"
  by (induction s p rule: startswith.induct) auto

lemma contains_iff: "contains sub s \<longleftrightarrow> (\<exists>a b. s = a @ sub @ b)"
proof (induction s)
  case Nil
  show ?case by auto
next
  case (Cons c cs)
  show ?case
  proof
    assume "contains sub (c # cs)"
    then consider "startswith (c # cs) sub" | "contains sub cs" by auto
    then show "\<exists>a b. c # cs = a @ sub @ b"
    proof cases
      case 1
      then obtain b where "c # cs = sub @ b" by (auto simp: startswith_iff)
      then have "c # cs = [] @ sub @ b" by simp
      then show ?thesis by blast
    next
      case 2
      then obtain a b where "cs = a @ sub @ b" using Cons.IH by blast
      then have "c # cs = (c # a) @ sub @ b" by simp
      then show ?thesis by blast
    qed
  next
    assume "\<exists>a b. c # cs = a @ sub @ b"
    then obtain a b where ab: "c # cs = a @ sub @ b" by blast
    show "contains sub (c # cs)"
    proof (cases a)
      case Nil
      with ab have "startswith (c # cs) sub" by (auto simp: startswith_iff)
      then show ?thesis by simp
    next
      case (Cons x a')
      with ab have "cs = a' @ sub @ b" by simp
      then have "contains sub cs" using Cons.IH by blast
      then show ?thesis by simp
    qed
  qed
qed

lemma split_on_prefix:
  "sep \<notin> set m \<Longrightarrow> split_on sep (m @ b) = (m @ hd (split_on sep b)) # tl (split_on sep b)"
  by (induction m) (auto simp: split_on_not_Nil split: list.splits)

lemma split_on_piece:
  assumes "sep \<notin> set m"
  shows "\<exists>p \<in> set (split_on sep (a @ m @ b)). \<exists>a' b'. p = a' @ m @ b'"
proof (induction a)
  case Nil
  have "split_on sep (m @ b) = (m @ hd (split_on sep b)) # tl (split_on sep b)"
    using assms by (rule split_on_prefix)
  then have "[] @ m @ hd (split_on sep b) \<in> set (split_on sep ([] @ m @ b))" by simp
  then show ?case by blast
next
  case (Cons c a)
  then obtain p a' b' where p: "p \<in> set (split_on sep (a @ m @ b))" "p = a' @ m @ b'" by blast
  obtain q qs where q: "split_on sep (a @ m @ b) = q # qs"
    using split_on_not_Nil by (cases "split_on sep (a @ m @ b)") auto
  show ?case
  proof (cases "c = sep")
    case True
    then show ?thesis using p by auto
  next
    case False
    then have s: "split_on sep ((c # a) @ m @ b) = (c # q) # qs" using q by simp
    show ?thesis
    proof (cases "p = q")
      case True
      then have "c # q = (c # a') @ m @ b'" using p by simp
      then show ?thesis using s by (metis list.set_intros(1))
    next
      case False
      then have "p \<in> set qs" using p q by auto
      then show ?thesis using s p(2) by (metis list.set_intros(2))
    qed
  qed
qed

lemma strip_keeps:
  assumes "m \<noteq> []" "\<forall>c \<in> set m. \<not> is_space c"
  shows "\<exists>a' b'. strip (a @ m @ b) = a' @ m @ b'"
proof -
  obtain x m' where m: "m = x # m'" using assms(1) by (cases m) auto
  obtain m'' y where m2: "m = m'' @ [y]" using assms(1) by (cases m rule: rev_cases) auto
  have "x \<in> set m" using m by simp
  then have x: "\<not> is_space x" using assms(2) by blast
  have "y \<in> set m" using m2 by simp
  then have y: "\<not> is_space y" using assms(2) by blast
  have 1: "dropWhile is_space (a @ m @ b) = dropWhile is_space a @ m @ b"
    using x m by (simp add: dropWhile_append3)
  have "rev (dropWhile is_space a @ m @ b) = rev b @ y # rev m'' @ rev (dropWhile is_space a)"
    using m2 by simp
  then have "dropWhile is_space (rev (dropWhile is_space a @ m @ b))
      = dropWhile is_space (rev b) @ y # rev m'' @ rev (dropWhile is_space a)"
    using y by (simp add: dropWhile_append3)
  then have "strip (a @ m @ b) = dropWhile is_space a @ m @ rev (dropWhile is_space (rev b))"
    using 1 m2 by (simp add: strip_def)
  then show ?thesis by blast
qed

lemma marker_no_space: "\<forall>c \<in> set ''Inner_Iter''. \<not> is_space c"
  by (simp add: is_space_def)

lemma fields_marker:
  assumes "contains ''Inner_Iter'' s"
  shows "\<exists>f \<in> set (fields s). contains ''Inner_Iter'' f"
proof -
  obtain a b where "s = a @ ''Inner_Iter'' @ b" using assms contains_iff by blast
  moreover have "CHR ''|'' \<notin> set ''Inner_Iter''" by simp
  ultimately obtain p a' b' where p: "p \<in> set (split_on CHR ''|'' s)" "p = a' @ ''Inner_Iter'' @ b'"
    using split_on_piece by blast
  obtain a'' b'' where s: "strip p = a'' @ ''Inner_Iter'' @ b''"
    using strip_keeps[OF _ marker_no_space, of a' b'] p(2) by auto
  then have "strip p \<noteq> []" by simp
  then have "strip p \<in> set (fields s)" using p(1) by (auto simp: fields_def)
  moreover have "contains ''Inner_Iter'' (strip p)" using s contains_iff by blast
  ultimately show ?thesis by blast
qed

section \<open>The loop in closed form\<close>

declare scan.simps(2) [simp del]

lemma scan_seek:
  "\<not> in_data_section st \<Longrightarrow> \<not> has_marker line \<Longrightarrow>
   scan st (line # f) = scan (st\<lparr>line_number := Suc (line_number st)\<rparr>) f"
  by (simp add: scan.simps(2) has_marker_def Let_def)

lemma scan_header:
  "\<not> in_data_section st \<Longrightarrow> has_marker line \<Longrightarrow>
   scan st (line # f) =
     scan (st\<lparr>line_number := Suc (line_number st),
              columns := Some (header_columns line),
              printed := printed st @ [Header_found (Suc (line_number st)) (header_columns line)],
              in_data_section := True\<rparr>) (drop 1 f)"
  by (simp add: scan.simps(2) has_marker_def header_columns_def Let_def)

lemma parsed_values_Cons: "vs \<noteq> [] \<Longrightarrow> parsed_values vs \<noteq> None"
  by (cases vs) auto

lemma scan_data_step:
  assumes "in_data_section st" "columns st = Some cols" "cols \<noteq> []"
  shows "scan st (line # f) =
     scan (st\<lparr>line_number := Suc (line_number st),
              data := data st @ (case row_of cols line of None \<Rightarrow> [] | Some r \<Rightarrow> [r]),
              printed := printed st @ message_of cols (Suc (line_number st)) line\<rparr>) f"
proof (cases "strip line = [] \<or> startswith (strip line) ''+''")
  case True
  then show ?thesis using assms
    by (simp add: scan.simps(2) row_of_def message_of_def Let_def)
next
  case skip: False
  show ?thesis
  proof (cases "length (fields (strip line)) = length cols")
    case False
    then show ?thesis using assms skip
      by (simp add: scan.simps(2) row_of_def message_of_def Let_def)
  next
    case True
    then have "fields (strip line) \<noteq> []" using assms(3) by auto
    then obtain r where r: "parsed_values (fields (strip line)) = Some r"
      using parsed_values_Cons by blast
    show ?thesis using assms skip True r
      by (cases r) (simp_all add: scan.simps(2) row_of_def message_of_def Let_def)
  qed
qed

lemma scan_data:
  "in_data_section st \<Longrightarrow> columns st = Some cols \<Longrightarrow> cols \<noteq> [] \<Longrightarrow>
   scan st f = Inr (st\<lparr>line_number := line_number st + length f,
                       data := data st @ rows_of cols f,
                       printed := printed st @ messages_from cols (line_number st) f\<rparr>)"
proof (induction f arbitrary: st)
  case Nil
  then show ?case by simp
next
  case (Cons line f)
  show ?case
    by (simp add: scan_data_step[OF Cons.prems] Cons.IH Cons.prems split: option.splits)
qed

lemma scan_prefix:
  "\<not> in_data_section st \<Longrightarrow> \<forall>l \<in> set pfx. \<not> has_marker l \<Longrightarrow>
   scan st (pfx @ f) = scan (st\<lparr>line_number := line_number st + length pfx\<rparr>) f"
proof (induction pfx arbitrary: st)
  case Nil
  then show ?case by simp
next
  case (Cons l pfx)
  then show ?case by (simp add: scan_seek)
qed

lemma header_columns_not_Nil: "has_marker line \<Longrightarrow> header_columns line \<noteq> []"
  using fields_marker[of "strip line"] by (auto simp: has_marker_def header_columns_def)

lemma scan_no_header:
  assumes "\<forall>l \<in> set ls. \<not> has_marker l"
  shows "scan initial ls = Inr (initial\<lparr>line_number := length ls\<rparr>)"
  using scan_prefix[of initial ls "[]"] assms by (simp add: initial_def)

lemma scan_with_header:
  assumes "\<forall>l \<in> set pfx. \<not> has_marker l" "has_marker hdr"
  shows "scan initial (pfx @ hdr # rest) =
    Inr \<lparr>data = rows_of (header_columns hdr) (drop 1 rest),
         columns = Some (header_columns hdr),
         in_data_section = True,
         line_number = Suc (length pfx) + length (drop 1 rest),
         printed = Header_found (Suc (length pfx)) (header_columns hdr)
                   # messages_from (header_columns hdr) (Suc (length pfx)) (drop 1 rest)\<rparr>"
proof -
  have 1: "scan initial (pfx @ hdr # rest) = scan (initial\<lparr>line_number := length pfx\<rparr>) (hdr # rest)"
    using scan_prefix[of initial pfx] assms(1) by (simp add: initial_def)
  show ?thesis
    unfolding 1
    by (simp add: scan_header assms(2) initial_def scan_data[where cols = "header_columns hdr"]
          header_columns_not_Nil)
qed

section \<open>Fields that cannot be converted\<close>

lemma split_sign_set:
  "split_sign s = (neg, body) \<Longrightarrow> c \<noteq> CHR ''-'' \<Longrightarrow> c \<noteq> CHR ''+'' \<Longrightarrow>
   c \<in> set s \<Longrightarrow> c \<in> set body"
  by (cases s) (auto split: if_splits)

lemma split_on_set:
  "c \<in> set s \<Longrightarrow> c \<noteq> sep \<Longrightarrow> \<exists>g \<in> set (split_on sep s). c \<in> set g"
proof (induction s)
  case Nil
  then show ?case by simp
next
  case (Cons x s)
  obtain q qs where q: "split_on sep s = q # qs"
    using split_on_not_Nil by (cases "split_on sep s") auto
  show ?case
  proof (cases "c = x")
    case True
    then show ?thesis using Cons.prems q by auto
  next
    case False
    then have "\<exists>g \<in> set (split_on sep s). c \<in> set g" using Cons by auto
    then show ?thesis using q by (cases "x = sep") auto
  qed
qed

lemma not_digit_r: "\<not> is_digit (CHR ''r'')"
  by (simp add: is_digit_def)

lemma list_all_digit_r: "CHR ''r'' \<in> set g \<Longrightarrow> \<not> list_all is_digit g"
  using not_digit_r by (induction g) auto

lemma py_int_no_r: "CHR ''r'' \<in> set s \<Longrightarrow> py_int s = None"
proof -
  assume r: "CHR ''r'' \<in> set s"
  obtain neg body where sb: "split_sign s = (neg, body)" by (cases "split_sign s")
  have "CHR ''r'' \<in> set body" using split_sign_set[OF sb _ _ r] by simp
  then obtain g where "g \<in> set (split_on CHR ''_'' body)" "CHR ''r'' \<in> set g"
    using split_on_set[of "CHR ''r''" body "CHR ''_''"] by auto
  then have "\<not> list_all (\<lambda>g. g \<noteq> [] \<and> list_all is_digit g) (split_on CHR ''_'' body)"
    using list_all_digit_r unfolding list_all_iff[of _ "split_on CHR ''_'' body"] by blast
  then show ?thesis using sb by (simp add: py_int_def)
qed

lemma dropWhile_digit_set:
  "c \<in> set s \<Longrightarrow> \<not> is_digit c \<Longrightarrow> c \<in> set (dropWhile is_digit s)"
  by (induction s) auto

lemma exponent_no_r: "CHR ''r'' \<in> set s \<Longrightarrow> exponent s = None"
proof (cases s)
  case Nil
  assume "CHR ''r'' \<in> set s"
  then show ?thesis using Nil by simp
next
  case (Cons c cs)
  assume r: "CHR ''r'' \<in> set s"
  show ?thesis
  proof (cases "c = CHR ''e'' \<or> c = CHR ''E''")
    case False
    then show ?thesis using Cons by (simp add: exponent_def)
  next
    case True
    then have rc: "CHR ''r'' \<in> set cs" using r Cons by auto
    obtain neg ds where sd: "split_sign cs = (neg, ds)" by (cases "split_sign cs")
    have "CHR ''r'' \<in> set ds" using split_sign_set[OF sd _ _ rc] by simp
    then have "\<not> list_all is_digit ds" by (rule list_all_digit_r)
    then show ?thesis using Cons True sd by (simp add: exponent_def)
  qed
qed

lemma lower_r: "lower (CHR ''r'') = CHR ''r''"
  by (simp add: lower_def)

lemma py_float_no_r: "CHR ''r'' \<in> set s \<Longrightarrow> py_float s = None"
proof -
  assume r: "CHR ''r'' \<in> set s"
  let ?s = "filter (\<lambda>c. c \<noteq> CHR ''_'') s"
  obtain neg body where sb: "split_sign ?s = (neg, body)" by (cases "split_sign ?s")
  have "CHR ''r'' \<in> set ?s" using r by simp
  then have rb: "CHR ''r'' \<in> set body" using split_sign_set[OF sb] by simp
  then have "CHR ''r'' \<in> set (map lower body)" using lower_r by (metis image_eqI set_map)
  then have w: "map lower body \<noteq> ''inf''" "map lower body \<noteq> ''infinity''" "map lower body \<noteq> ''nan''"
    by auto
  have nd: "\<not> is_digit (CHR ''r'')" by (rule not_digit_r)
  let ?r1 = "dropWhile is_digit body"
  have r1: "CHR ''r'' \<in> set ?r1" using rb nd by (rule dropWhile_digit_set)
  let ?r2 = "if startswith ?r1 ''.'' then dropWhile is_digit (tl ?r1) else ?r1"
  have "CHR ''r'' \<in> set ?r2"
  proof (cases "startswith ?r1 ''.''")
    case False
    then show ?thesis using r1 by simp
  next
    case True
    then obtain t where t: "?r1 = CHR ''.'' # t" by (auto simp: startswith_iff)
    then have "CHR ''r'' \<in> set t" using r1 by auto
    then have "CHR ''r'' \<in> set (dropWhile is_digit t)" using nd by (rule dropWhile_digit_set)
    then show ?thesis using True t by simp
  qed
  then have "exponent ?r2 = None" by (rule exponent_no_r)
  then show ?thesis using sb w by (simp add: py_float_def Let_def)
qed

lemma marker_has_r: "contains ''Inner_Iter'' f \<Longrightarrow> CHR ''r'' \<in> set f"
  by (auto simp: contains_iff)

section \<open>Rows\<close>

lemma floats_Cons_Inr:
  "floats (a # vs) = Inr xs \<longleftrightarrow>
     (\<exists>x xs'. py_float a = Some x \<and> floats vs = Inr xs' \<and> xs = x # xs')"
  by (auto split: option.splits sum.splits)

lemma floats_no_r: "f \<in> set vs \<Longrightarrow> CHR ''r'' \<in> set f \<Longrightarrow> floats vs \<noteq> Inr xs"
proof (induction vs arbitrary: xs)
  case Nil
  then show ?case by simp
next
  case (Cons a vs)
  show ?case
  proof
    assume "floats (a # vs) = Inr xs"
    then obtain x xs' where x: "py_float a = Some x" "floats vs = Inr xs'"
      using floats_Cons_Inr[of a vs xs] by blast
    have "py_float f = None" using Cons.prems(2) by (rule py_float_no_r)
    then have "f \<noteq> a" using x(1) by auto
    then have "f \<in> set vs" using Cons.prems(1) by simp
    then show False using Cons.IH[of xs'] Cons.prems(2) x(2) by simp
  qed
qed


lemma floats_Inr_iff: "floats vs = Inr xs \<longleftrightarrow> map py_float vs = map Some xs"
proof (induction vs arbitrary: xs)
  case Nil
  show ?case by auto
next
  case step: (Cons a vs)
  show ?case
  proof (cases xs)
    case Nil
    then show ?thesis using floats_Cons_Inr[of a vs xs] by simp
  next
    case (Cons x xs')
    have "floats (a # vs) = Inr (x # xs') \<longleftrightarrow> py_float a = Some x \<and> floats vs = Inr xs'"
      using floats_Cons_Inr[of a vs "x # xs'"] by simp
    then show ?thesis using step.IH[of xs'] Cons by simp
  qed
qed

lemma floats_Inr_all: "(\<exists>xs. floats vs = Inr xs) \<longleftrightarrow> list_all (\<lambda>x. py_float x \<noteq> None) vs"
proof (induction vs)
  case Nil
  show ?case by simp
next
  case (Cons a vs)
  have "(\<exists>xs. floats (a # vs) = Inr xs) \<longleftrightarrow> py_float a \<noteq> None \<and> (\<exists>xs'. floats vs = Inr xs')"
    unfolding floats_Cons_Inr by blast
  then show ?case using Cons by simp
qed

lemma parsed_values_Inr:
  "parsed_values vals = Some (Inr row) \<longleftrightarrow>
     (\<exists>v vs i xs. vals = v # vs \<and> py_int v = Some i \<and> floats vs = Inr xs \<and>
        row = Int_cell i # map Float_cell xs)"
  by (cases vals) (auto split: option.splits sum.splits)

lemma row_of_Some_iff:
  "row_of cols l = Some row \<longleftrightarrow>
     strip l \<noteq> [] \<and> \<not> startswith (strip l) ''+'' \<and>
     length (fields (strip l)) = length cols \<and>
     parsed_values (fields (strip l)) = Some (Inr row)"
  by (simp add: row_of_def Let_def split: option.splits sum.splits)

lemma fields_Nil: "fields [] = []"
  by (simp add: fields_def strip_def)

lemma spec_valid_row_iff:
  "spec_valid_row cols l \<longleftrightarrow>
     length (fields (strip l)) = length cols \<and>
     (\<exists>row. parsed_values (fields (strip l)) = Some (Inr row))"
proof (cases "fields (strip l)")
  case Nil
  then show ?thesis by (simp add: spec_valid_row_def)
next
  case (Cons v vs)
  have "(\<exists>row. parsed_values (v # vs) = Some (Inr row)) \<longleftrightarrow>
        py_int v \<noteq> None \<and> (\<exists>xs. floats vs = Inr xs)"
    by (auto split: option.splits sum.splits)
  then show ?thesis using Cons
    by (simp only: spec_valid_row_def Let_def list.case floats_Inr_all[symmetric])
qed

lemma row_of_valid:
  "(row_of cols l \<noteq> None) = (spec_valid_row cols l \<and> \<not> startswith (strip l) ''+'')"
proof -
  have "strip l = [] \<Longrightarrow> \<not> spec_valid_row cols l"
    by (simp add: spec_valid_row_def fields_Nil)
  moreover have "(row_of cols l \<noteq> None) = (\<exists>row. row_of cols l = Some row)" by auto
  ultimately show ?thesis
    unfolding row_of_Some_iff spec_valid_row_iff by blast
qed

lemma marker_not_valid: "has_marker l \<Longrightarrow> \<not> spec_valid_row cols l"
proof
  assume m: "has_marker l" and v: "spec_valid_row cols l"
  obtain f where f: "f \<in> set (fields (strip l))" "CHR ''r'' \<in> set f"
    using fields_marker[of "strip l"] m marker_has_r unfolding has_marker_def by blast
  obtain w vs i xs where p: "fields (strip l) = w # vs" "py_int w = Some i" "floats vs = Inr xs"
    using v unfolding spec_valid_row_iff parsed_values_Inr by blast
  show False
  proof (cases "f = w")
    case True
    then have "py_int w = None" using f(2) py_int_no_r by blast
    then show ?thesis using p(2) by simp
  next
    case False
    then have "f \<in> set vs" using f(1) p(1) by simp
    then show ?thesis using floats_no_r f(2) p(3) by blast
  qed
qed

lemma rows_of_append: "rows_of cols (xs @ ys) = rows_of cols xs @ rows_of cols ys"
  by (induction xs) (auto split: option.splits)

lemma rows_of_filter:
  "map Some (rows_of cols ls) = map (row_of cols) (filter (\<lambda>l. row_of cols l \<noteq> None) ls)"
  by (induction ls) (auto split: option.splits)

section \<open>The function in closed form\<close>

lemma columns_initial: "columns initial = None"
  by (simp add: initial_def)

lemma read_no_header:
  "\<forall>l \<in> set ls. \<not> has_marker l \<Longrightarrow> read_and_parse_dat ls = Inl Header_not_found"
  by (simp add: read_and_parse_dat_def scan_no_header columns_initial)

lemma read_with_header:
  assumes "\<forall>l \<in> set pfx. \<not> has_marker l" "has_marker hdr"
  shows "read_and_parse_dat (pfx @ hdr # rest) =
    (if rows_of (header_columns hdr) (drop 1 rest) = [] then Inl No_valid_data
     else Inr \<lparr>frame_columns = header_columns hdr,
               frame_rows = rows_of (header_columns hdr) (drop 1 rest)\<rparr>)"
  by (simp add: read_and_parse_dat_def scan_with_header[OF assms])

lemma printed_with_header:
  assumes "\<forall>l \<in> set pfx. \<not> has_marker l" "has_marker hdr"
  shows "printed_messages (pfx @ hdr # rest) =
    Header_found (Suc (length pfx)) (header_columns hdr)
      # messages_from (header_columns hdr) (Suc (length pfx)) (drop 1 rest)"
  by (simp add: printed_messages_def scan_with_header[OF assms])

lemma from_header_Nil: "from_header ls = [] \<longleftrightarrow> (\<forall>l \<in> set ls. \<not> has_marker l)"
  by (auto simp: from_header_def dropWhile_eq_Nil_conv)

lemma from_header_append:
  "\<forall>l \<in> set pfx. \<not> has_marker l \<Longrightarrow> has_marker hdr \<Longrightarrow>
   from_header (pfx @ hdr # rest) = hdr # rest"
  by (simp add: from_header_def)

lemma split_at_header:
  assumes "from_header ls = hdr # rest"
  shows "ls = takeWhile (\<lambda>l. \<not> has_marker l) ls @ hdr # rest"
    and "\<forall>l \<in> set (takeWhile (\<lambda>l. \<not> has_marker l) ls). \<not> has_marker l"
    and "has_marker hdr"
proof -
  show "ls = takeWhile (\<lambda>l. \<not> has_marker l) ls @ hdr # rest"
    using assms takeWhile_dropWhile_id[of "\<lambda>l. \<not> has_marker l" ls]
    by (simp add: from_header_def)
  show "\<forall>l \<in> set (takeWhile (\<lambda>l. \<not> has_marker l) ls). \<not> has_marker l"
    using set_takeWhileD by fastforce
  show "has_marker hdr"
    using assms hd_dropWhile[of "\<lambda>l. \<not> has_marker l" ls] by (auto simp: from_header_def)
qed

lemma read_closed_form:
  "read_and_parse_dat ls =
     (case from_header ls of
        [] \<Rightarrow> Inl Header_not_found
      | hdr # rest \<Rightarrow>
          if rows_of (header_columns hdr) (drop 1 rest) = [] then Inl No_valid_data
          else Inr \<lparr>frame_columns = header_columns hdr,
                    frame_rows = rows_of (header_columns hdr) (drop 1 rest)\<rparr>)"
proof (cases "from_header ls")
  case Nil
  then have "\<forall>l \<in> set ls. \<not> has_marker l" using from_header_Nil by blast
  then have "read_and_parse_dat ls = Inl Header_not_found" by (rule read_no_header)
  then show ?thesis using Nil by simp
next
  case (Cons hdr rest)
  note s = split_at_header[OF Cons]
  have "read_and_parse_dat (takeWhile (\<lambda>l. \<not> has_marker l) ls @ hdr # rest) =
    (if rows_of (header_columns hdr) (drop 1 rest) = [] then Inl No_valid_data
     else Inr \<lparr>frame_columns = header_columns hdr,
               frame_rows = rows_of (header_columns hdr) (drop 1 rest)\<rparr>)"
    using s(2) s(3) by (rule read_with_header)
  then show ?thesis using s(1) Cons by simp
qed

lemma converted_rows_eq:
  "from_header ls = hdr # rest \<Longrightarrow> converted_rows ls = rows_of (header_columns hdr) (drop 1 rest)"
  by (simp add: converted_rows_def schema_def data_lines_def drop_Suc numeral_2_eq_2 drop_tl)

lemma read_data_section:
  assumes "\<forall>l \<in> set pfx. \<not> has_marker l" "has_marker hdr"
  shows "read_and_parse_dat (pfx @ hdr # sep # rest) =
    (if rows_of (header_columns hdr) rest = [] then Inl No_valid_data
     else Inr \<lparr>frame_columns = header_columns hdr,
               frame_rows = rows_of (header_columns hdr) rest\<rparr>)"
  using read_with_header[OF assms, of "sep # rest"] by simp

lemma spec_valid_rows_eq:
  "spec_valid_rows cols ls = filter (\<lambda>l. row_of cols l \<noteq> None) ls"
proof -
  have "\<And>l. (\<not> spec_separator l \<and> spec_valid_row cols l) = (row_of cols l \<noteq> None)"
  proof -
    fix l
    have "strip l = [] \<Longrightarrow> \<not> spec_valid_row cols l"
      by (simp add: spec_valid_row_def fields_Nil)
    then show "(\<not> spec_separator l \<and> spec_valid_row cols l) = (row_of cols l \<noteq> None)"
      unfolding row_of_valid spec_separator_def by blast
  qed
  then have "filter (\<lambda>l. \<not> spec_separator l \<and> spec_valid_row cols l) ls
      = filter (\<lambda>l. row_of cols l \<noteq> None) ls"
    by (simp only:)
  then show ?thesis by (simp only: spec_valid_rows_def filter_filter)
qed

lemma malformed_not_valid:
  assumes "length (fields (strip bad)) \<noteq> length cols
       \<or> (\<exists>v vs. fields (strip bad) = v # vs
               \<and> (py_int v = None \<or> (\<exists>x \<in> set vs. py_float x = None)))"
  shows "row_of cols bad = None"
proof -
  have "\<not> spec_valid_row cols bad"
    using assms by (fastforce simp: spec_valid_row_def list_all_iff)
  then show ?thesis using row_of_valid[of cols bad] by simp
qed

lemma skipped_line_no_row:
  "strip l = [] \<or> startswith (strip l) ''+'' \<Longrightarrow> row_of cols l = None"
  by (simp add: row_of_def Let_def)

lemma skipped_line_no_message:
  "strip l = [] \<or> startswith (strip l) ''+'' \<Longrightarrow> message_of cols n l = []"
  by (simp add: message_of_def Let_def)

lemma rows_of_member:
  "row \<in> set (rows_of cols f) \<Longrightarrow> \<exists>l \<in> set f. row_of cols l = Some row"
  by (induction f) (auto split: option.splits)

lemma row_shape:
  assumes "row_of cols l = Some row"
  shows "length row = length cols
       \<and> (\<exists>v vs i xs. fields (strip l) = v # vs \<and> py_int v = Some i
             \<and> map py_float vs = map Some xs \<and> row = Int_cell i # map Float_cell xs)"
proof -
  from assms obtain v vs i xs where p:
    "length (fields (strip l)) = length cols" "fields (strip l) = v # vs"
    "py_int v = Some i" "floats vs = Inr xs" "row = Int_cell i # map Float_cell xs"
    unfolding row_of_Some_iff parsed_values_Inr by blast
  have m: "map py_float vs = map Some xs" using p(4) by (simp only: floats_Inr_iff)
  then have "length (map py_float vs) = length (map Some xs)" by simp
  then have "length vs = length xs" by simp
  then have "length row = length cols" using p(1,2,5) by simp
  then show ?thesis using p(2,3,5) m by blast
qed

lemma messages_from_concat:
  "messages_from cols n f =
     concat (map (\<lambda>k. message_of cols (Suc (n + k)) (f ! k)) [0..<length f])"
proof (induction f arbitrary: n)
  case Nil
  show ?case by simp
next
  case (Cons l f)
  have "[0..<length (l # f)] = 0 # map Suc [0..<length f]"
    by (simp add: upt_conv_Cons map_Suc_upt del: upt_Suc)
  then show ?case using Cons[of "Suc n"] by (simp add: comp_def del: upt_Suc)
qed

lemma reported_message_of: "m \<in> set (message_of cols n l) \<Longrightarrow> reported m = n"
  by (auto simp: message_of_def Let_def split: if_splits option.splits sum.splits)

lemma printed_positions:
  assumes "\<forall>l \<in> set pfx. \<not> has_marker l" and "has_marker hdr"
    and "cols = header_columns hdr"
    and "ls = pfx @ hdr # sep # rest"
  shows "printed_messages ls =
           Header_found (length pfx + 1) cols
           # concat (map (\<lambda>p. message_of cols (p - 1) (ls ! (p - 1)))
                         [length pfx + 3 ..< length ls + 1])
"
proof -
  let ?n = "length pfx"
  have len: "length ls = ?n + 2 + length rest" using assms(4) by simp
  have nth: "\<And>k. ls ! Suc (Suc (?n + k)) = rest ! k"
    using assms(4) by (simp add: nth_append)
  have e: "length ls + 1 = length rest + (?n + 3)" using len by simp
  have "[?n + 3 ..< length ls + 1] = map (\<lambda>k. k + (?n + 3)) [0..<length rest]"
    unfolding e by (rule map_add_upt[symmetric])
  then have "map (\<lambda>p. message_of cols (p - 1) (ls ! (p - 1))) [?n + 3 ..< length ls + 1]
      = map (\<lambda>k. message_of cols (?n + 2 + k) (ls ! (?n + 2 + k))) [0..<length rest]"
    by (simp add: comp_def add.commute add.left_commute)
  also have "\<dots> = map (\<lambda>k. message_of cols (Suc (Suc ?n + k)) (rest ! k)) [0..<length rest]"
    by (rule map_cong) (simp_all add: nth)
  finally have "concat (map (\<lambda>p. message_of cols (p - 1) (ls ! (p - 1))) [?n + 3 ..< length ls + 1])
      = messages_from cols (Suc ?n) rest"
    by (simp only: messages_from_concat)
  moreover have "printed_messages ls = Header_found (Suc ?n) cols # messages_from cols (Suc ?n) rest"
    using printed_with_header[OF assms(1,2), of "sep # rest"] assms(3,4) by simp
  ultimately show ?thesis by simp
qed

section \<open>The claims\<close>

text \<open>
  Claim C1. With no line containing \<open>Inner_Iter\<close> the function fails with the
  missing-header error; with a header and no converted row it fails with the no-data
  error; otherwise it returns the table. It fails for no other reason, and the header
  check comes first: without a header there is no row either, and the error is the
  missing header.
\<close>

theorem parse_fails_for_two_reasons_only:
  "read_and_parse_dat ls =
     (if \<not> (\<exists>l \<in> set ls. has_marker l) then Inl Header_not_found
      else if converted_rows ls = [] then Inl No_valid_data
      else Inr \<lparr>frame_columns = schema ls, frame_rows = converted_rows ls\<rparr>)
   \<and> (\<not> (\<exists>l \<in> set ls. has_marker l) \<longrightarrow> converted_rows ls = [])"
proof (cases "from_header ls")
  case Nil
  then have "\<not> (\<exists>l \<in> set ls. has_marker l)" using from_header_Nil by blast
  moreover have "converted_rows ls = []"
    using Nil by (simp add: converted_rows_def data_lines_def)
  ultimately show ?thesis using read_closed_form[of ls] Nil by simp
next
  case (Cons hdr rest)
  then have "\<exists>l \<in> set ls. has_marker l" using from_header_Nil[of ls] by auto
  moreover have "schema ls = header_columns hdr" using Cons by (simp add: schema_def)
  ultimately show ?thesis
    using read_closed_form[of ls] Cons converted_rows_eq[OF Cons] by simp
qed

theorem parse_fails_for_two_reasons_only_witness:
  "read_and_parse_dat [''Solver banner'', ''no table here''] = Inl Header_not_found
   \<and> converted_rows [''Solver banner'', ''no table here''] = []
   \<and> read_and_parse_dat [''banner'', ''| Inner_Iter | rms[Rho] |'', ''+-----+''] = Inl No_valid_data
   \<and> read_and_parse_dat [''banner'', ''| Inner_Iter | rms[Rho] |'', ''+-----+'', ''| 0 | -1.5 |'']
       = Inr \<lparr>frame_columns = [''Inner_Iter'', ''rms[Rho]''],
              frame_rows = [[Int_cell 0, Float_cell (Finite True 15 (- 1))]]\<rparr>"
proof -
  let ?a = "[''Solver banner'', ''no table here'']"
  let ?b = "[''banner'', ''| Inner_Iter | rms[Rho] |'', ''+-----+'']"
  let ?c = "[''banner'', ''| Inner_Iter | rms[Rho] |'', ''+-----+'', ''| 0 | -1.5 |'']"
  have a: "\<not> (\<exists>l \<in> set ?a. has_marker l)" by code_simp
  have b: "(\<exists>l \<in> set ?b. has_marker l)" "converted_rows ?b = []" by code_simp+
  have c: "(\<exists>l \<in> set ?c. has_marker l)" "schema ?c = [''Inner_Iter'', ''rms[Rho]'']"
    "converted_rows ?c = [[Int_cell 0, Float_cell (Finite True 15 (- 1))]]" by code_simp+
  show ?thesis
    using parse_fails_for_two_reasons_only[of ?a] parse_fails_for_two_reasons_only[of ?b]
      parse_fails_for_two_reasons_only[of ?c] a b c
    by simp
qed

text \<open>
  Claim C2, as stated, promises a table with M rows for every M. For M = 0 there is
  none: here the header gives two names, the data section (nothing follows the skipped
  line) holds no valid data row, and the function raises its no-data error instead of
  returning a table of two columns and no row.
\<close>

theorem no_valid_row_counterexample:
  "length (header_columns ''Inner_Iter | Residual'') = 2
   \<and> data_lines [''Inner_Iter | Residual'', ''-----''] = []
   \<and> length (spec_valid_rows (header_columns ''Inner_Iter | Residual'')
               (data_lines [''Inner_Iter | Residual'', ''-----''])) = 0
   \<and> read_and_parse_dat [''Inner_Iter | Residual'', ''-----''] = Inl No_valid_data"
  by code_simp

text \<open>
  Claim C2, amended: M is at least 1. For an input whose header gives N names and whose
  data section, the lines after the skipped one, holds M valid data rows with M at least
  1 (lines that are no separators, with the right number of fields, an integer first and
  floats after), the function returns a table whose columns are the header's N names in
  their order, with M rows, one per valid data row and in the order of the lines:
  nothing is sorted and no repeated index is dropped.
\<close>

theorem table_of_valid_rows:
  assumes "\<forall>l \<in> set pfx. \<not> has_marker l" and "has_marker hdr"
    and "cols = header_columns hdr"
    and "valid = spec_valid_rows cols rest"
    and "1 \<le> length valid"
  shows "\<exists>t. read_and_parse_dat (pfx @ hdr # sep # rest) = Inr t
             \<and> frame_columns t = cols
             \<and> length (frame_columns t) = length cols
             \<and> length (frame_rows t) = length valid
             \<and> map Some (frame_rows t) = map (row_of cols) valid"
proof -
  let ?rows = "rows_of cols rest"
  have "valid = filter (\<lambda>l. row_of cols l \<noteq> None) rest"
    using assms(4) by (simp only: spec_valid_rows_eq)
  then have m: "map Some ?rows = map (row_of cols) valid"
    by (simp only: rows_of_filter)
  then have "length (map Some ?rows) = length (map (row_of cols) valid)" by simp
  then have n: "length ?rows = length valid" by simp
  then have "?rows \<noteq> []" using assms(5) by auto
  then have "read_and_parse_dat (pfx @ hdr # sep # rest) =
      Inr \<lparr>frame_columns = cols, frame_rows = ?rows\<rparr>"
    using read_data_section[OF assms(1,2)] assms(3) by simp
  then show ?thesis using m n by simp
qed

theorem table_of_valid_rows_witness:
  "\<not> has_marker ''SU2 banner''
   \<and> has_marker ''| Inner_Iter | Residual |''
   \<and> [''| 3 | 1.5 |'', ''| 1 | 0.002 |'', ''| 3 | 2e-3 |'']
       = spec_valid_rows [''Inner_Iter'', ''Residual'']
           [''| 3 | 1.5 |'', ''+----+----+'', ''| 1 | 0.002 |'', [], ''| 3 | 2e-3 |'']
   \<and> (\<exists>t. read_and_parse_dat ([''SU2 banner''] @ ''| Inner_Iter | Residual |'' # ''+----+----+''
               # [''| 3 | 1.5 |'', ''+----+----+'', ''| 1 | 0.002 |'', [], ''| 3 | 2e-3 |''])
             = Inr t
          \<and> frame_columns t = [''Inner_Iter'', ''Residual'']
          \<and> length (frame_rows t) = 3
          \<and> map Some (frame_rows t) =
              [Some [Int_cell 3, Float_cell (Finite False 15 (- 1))],
               Some [Int_cell 1, Float_cell (Finite False 2 (- 3))],
               Some [Int_cell 3, Float_cell (Finite False 2 (- 3))]])"
proof -
  let ?hdr = "''| Inner_Iter | Residual |''"
  let ?cols = "[''Inner_Iter'', ''Residual'']"
  let ?rest = "[''| 3 | 1.5 |'', ''+----+----+'', ''| 1 | 0.002 |'', [], ''| 3 | 2e-3 |'']"
  let ?valid = "[''| 3 | 1.5 |'', ''| 1 | 0.002 |'', ''| 3 | 2e-3 |'']"
  have 0: "\<not> has_marker ''SU2 banner''" by code_simp
  then have 1: "\<forall>l \<in> set [''SU2 banner'']. \<not> has_marker l" by simp
  have 2: "has_marker ?hdr" by code_simp
  have 3: "?cols = header_columns ?hdr" by code_simp
  have 4: "?valid = spec_valid_rows ?cols ?rest" by code_simp
  have 5: "1 \<le> length ?valid" by simp
  have 6: "map (row_of ?cols) ?valid =
              [Some [Int_cell 3, Float_cell (Finite False 15 (- 1))],
               Some [Int_cell 1, Float_cell (Finite False 2 (- 3))],
               Some [Int_cell 3, Float_cell (Finite False 2 (- 3))]]" by code_simp
  obtain t where t:
    "read_and_parse_dat ([''SU2 banner''] @ ?hdr # ''+----+----+'' # ?rest) = Inr t"
    "frame_columns t = ?cols"
    "length (frame_rows t) = length ?valid"
    "map Some (frame_rows t) = map (row_of ?cols) ?valid"
    using table_of_valid_rows[OF 1 2 3 4 5, of "''+----+----+''"] by blast
  have 7: "length (frame_rows t) = 3" using t(3) by simp
  have 8: "map Some (frame_rows t) =
              [Some [Int_cell 3, Float_cell (Finite False 15 (- 1))],
               Some [Int_cell 1, Float_cell (Finite False 2 (- 3))],
               Some [Int_cell 3, Float_cell (Finite False 2 (- 3))]]"
    using t(4) 6 by (simp only:)
  show ?thesis
    by (intro conjI exI[of _ t]) (rule 0 2 4 t(1) t(2) 7 8)+
qed

text \<open>
  Claim C3. A data line with a number of fields other than the schema's, or whose first
  field \<open>int\<close> rejects, or with a later field \<open>float\<close> rejects, gives no row, and the
  scan goes on: the table holds the rows of the lines before it followed by the rows of
  the lines after it.
\<close>

theorem malformed_row_is_skipped:
  assumes "\<forall>l \<in> set pfx. \<not> has_marker l" and "has_marker hdr"
    and "cols = header_columns hdr"
    and "length (fields (strip bad)) \<noteq> length cols
       \<or> (\<exists>v vs. fields (strip bad) = v # vs
               \<and> (py_int v = None \<or> (\<exists>x \<in> set vs. py_float x = None)))"
  shows "row_of cols bad = None
       \<and> read_and_parse_dat (pfx @ hdr # sep # before @ bad # after) =
          (if rows_of cols before @ rows_of cols after = [] then Inl No_valid_data
           else Inr \<lparr>frame_columns = cols,
                     frame_rows = rows_of cols before @ rows_of cols after\<rparr>)"
proof -
  have b: "row_of cols bad = None" using assms(4) by (rule malformed_not_valid)
  then have "rows_of cols (before @ bad # after) = rows_of cols before @ rows_of cols after"
    by (simp add: rows_of_append)
  then show ?thesis
    using b read_data_section[OF assms(1,2), of sep "before @ bad # after"] assms(3) by simp
qed

theorem malformed_row_is_skipped_witness:
  "has_marker ''Inner_Iter | a | b | c | d''
   \<and> length (fields (strip ''1 | 2 | 3 | 4'')) \<noteq> length (header_columns ''Inner_Iter | a | b | c | d'')
   \<and> row_of (header_columns ''Inner_Iter | a | b | c | d'') ''1 | 2 | 3 | 4'' = None
   \<and> read_and_parse_dat ([] @ ''Inner_Iter | a | b | c | d'' # ''---''
        # [''0 | 1 | 1 | 1 | 1''] @ ''1 | 2 | 3 | 4'' # [''2 | 5 | 5 | 5 | 5''])
      = Inr \<lparr>frame_columns = [''Inner_Iter'', ''a'', ''b'', ''c'', ''d''],
             frame_rows =
               [[Int_cell 0, Float_cell (Finite False 1 0), Float_cell (Finite False 1 0),
                 Float_cell (Finite False 1 0), Float_cell (Finite False 1 0)],
                [Int_cell 2, Float_cell (Finite False 5 0), Float_cell (Finite False 5 0),
                 Float_cell (Finite False 5 0), Float_cell (Finite False 5 0)]]\<rparr>"
proof -
  let ?hdr = "''Inner_Iter | a | b | c | d''"
  let ?cols = "[''Inner_Iter'', ''a'', ''b'', ''c'', ''d'']"
  have 1: "\<forall>l \<in> set ([]::string list). \<not> has_marker l" by simp
  have 2: "has_marker ?hdr" by code_simp
  have 3: "?cols = header_columns ?hdr" by code_simp
  have 4: "length (fields (strip ''1 | 2 | 3 | 4'')) \<noteq> length ?cols" by code_simp
  then have 5: "length (fields (strip ''1 | 2 | 3 | 4'')) \<noteq> length ?cols
       \<or> (\<exists>v vs. fields (strip ''1 | 2 | 3 | 4'') = v # vs
               \<and> (py_int v = None \<or> (\<exists>x \<in> set vs. py_float x = None)))" by (rule disjI1)
  have 6: "rows_of ?cols [''0 | 1 | 1 | 1 | 1''] @ rows_of ?cols [''2 | 5 | 5 | 5 | 5''] =
               [[Int_cell 0, Float_cell (Finite False 1 0), Float_cell (Finite False 1 0),
                 Float_cell (Finite False 1 0), Float_cell (Finite False 1 0)],
                [Int_cell 2, Float_cell (Finite False 5 0), Float_cell (Finite False 5 0),
                 Float_cell (Finite False 5 0), Float_cell (Finite False 5 0)]]" by code_simp
  note w = malformed_row_is_skipped[OF 1 2 3 5, of "''---''" "[''0 | 1 | 1 | 1 | 1'']"
      "[''2 | 5 | 5 | 5 | 5'']"]
  show ?thesis
    using w 2 4 unfolding 6 3[symmetric] by simp
qed

text \<open>
  Claim C4. Only the first line containing \<open>Inner_Iter\<close> is the header. A later such
  line in the data section leaves the schema as it is and goes through the same
  processing as every data line; it gives a row exactly when it has the schema's number
  of fields and all of them convert. A later such line in the skipped position gives no
  row, and its fields do not all convert either. (By \<open>marker_not_valid\<close> a field
  containing \<open>Inner_Iter\<close> never converts, so a later such line is in fact always
  discarded.)
\<close>

theorem later_marker_line_is_data:
  assumes "\<forall>l \<in> set pfx. \<not> has_marker l" and "has_marker hdr"
    and "cols = header_columns hdr"
    and "has_marker later"
  shows "read_and_parse_dat (pfx @ hdr # sep # before @ later # after) =
          (if rows_of cols (before @ later # after) = [] then Inl No_valid_data
           else Inr \<lparr>frame_columns = cols,
                     frame_rows = rows_of cols (before @ later # after)\<rparr>)
       \<and> rows_of cols (before @ later # after) =
           rows_of cols before
           @ (case row_of cols later of None \<Rightarrow> [] | Some row \<Rightarrow> [row])
           @ rows_of cols after
       \<and> (row_of cols later \<noteq> None) = spec_valid_row cols later
       \<and> (has_marker sep \<longrightarrow> \<not> spec_valid_row cols sep)"
proof -
  have "has_marker sep \<longrightarrow> \<not> spec_valid_row cols sep" using marker_not_valid by blast
  moreover have "\<not> spec_valid_row cols later" using assms(4) by (rule marker_not_valid)
  then have "(row_of cols later \<noteq> None) = spec_valid_row cols later"
    using row_of_valid[of cols later] by simp
  moreover have "rows_of cols (before @ later # after) =
           rows_of cols before
           @ (case row_of cols later of None \<Rightarrow> [] | Some row \<Rightarrow> [row])
           @ rows_of cols after"
    by (simp add: rows_of_append split: option.splits)
  ultimately show ?thesis
    using read_data_section[OF assms(1,2), of sep "before @ later # after"] assms(3) by simp
qed

theorem later_marker_line_is_data_witness:
  "\<not> has_marker ''log''
   \<and> has_marker ''| Inner_Iter | Residual |''
   \<and> has_marker ''| Inner_Iter | Time | Extra |''
   \<and> \<not> spec_valid_row [''Inner_Iter'', ''Residual''] ''| Inner_Iter | Time | Extra |''
   \<and> read_and_parse_dat ([''log''] @ ''| Inner_Iter | Residual |'' # ''+---+''
        # [''| 0 | 1.5 |''] @ ''| Inner_Iter | Time | Extra |'' # [''| 1 | 0.5 |''])
      = Inr \<lparr>frame_columns = [''Inner_Iter'', ''Residual''],
             frame_rows = [[Int_cell 0, Float_cell (Finite False 15 (- 1))],
                           [Int_cell 1, Float_cell (Finite False 5 (- 1))]]\<rparr>"
proof -
  let ?hdr = "''| Inner_Iter | Residual |''"
  let ?later = "''| Inner_Iter | Time | Extra |''"
  let ?cols = "[''Inner_Iter'', ''Residual'']"
  have 1: "\<forall>l \<in> set [''log'']. \<not> has_marker l" by code_simp
  have 2: "has_marker ?hdr" by code_simp
  have 3: "?cols = header_columns ?hdr" by code_simp
  have 4: "has_marker ?later" by code_simp
  have 5: "rows_of ?cols ([''| 0 | 1.5 |''] @ ?later # [''| 1 | 0.5 |'']) =
     [[Int_cell 0, Float_cell (Finite False 15 (- 1))],
      [Int_cell 1, Float_cell (Finite False 5 (- 1))]]" by code_simp
  have 6: "row_of ?cols ?later = None" by code_simp
  note w = later_marker_line_is_data[OF 1 2 3 4, of "''+---+''" "[''| 0 | 1.5 |'']"
      "[''| 1 | 0.5 |'']"]
  have 7: "\<not> spec_valid_row ?cols ?later" using w 6 by simp
  have 8: "read_and_parse_dat ([''log''] @ ?hdr # ''+---+''
        # [''| 0 | 1.5 |''] @ ?later # [''| 1 | 0.5 |''])
      = Inr \<lparr>frame_columns = ?cols,
             frame_rows = [[Int_cell 0, Float_cell (Finite False 15 (- 1))],
                           [Int_cell 1, Float_cell (Finite False 5 (- 1))]]\<rparr>"
    using w unfolding 5 by simp
  have 0: "\<not> has_marker ''log''" using 1 by simp
  show ?thesis by (intro conjI) (rule 0 2 4 7 8)+
qed

text \<open>
  Claim C5. The line after the header is consumed whatever it holds and gives no row,
  the header line gives no row either, and a header that is the last line ends in the
  no-data error: the rows are those of the lines after the skipped one only.
\<close>

theorem line_after_header_is_skipped:
  assumes "\<forall>l \<in> set pfx. \<not> has_marker l" and "has_marker hdr"
    and "cols = header_columns hdr"
  shows "read_and_parse_dat (pfx @ [hdr]) = Inl No_valid_data
       \<and> read_and_parse_dat (pfx @ hdr # sep # rest) =
          (if rows_of cols rest = [] then Inl No_valid_data
           else Inr \<lparr>frame_columns = cols, frame_rows = rows_of cols rest\<rparr>)"
  using read_with_header[OF assms(1,2), of "[]"] read_data_section[OF assms(1,2), of sep rest]
    assms(3) by simp

theorem line_after_header_is_skipped_witness:
  "\<not> has_marker ''log''
   \<and> has_marker ''Inner_Iter | Residual''
   \<and> row_of [''Inner_Iter'', ''Residual''] ''7 | 7.0''
       = Some [Int_cell 7, Float_cell (Finite False 70 (- 1))]
   \<and> read_and_parse_dat ([''log''] @ [''Inner_Iter | Residual'']) = Inl No_valid_data
   \<and> read_and_parse_dat ([''log''] @ ''Inner_Iter | Residual'' # ''7 | 7.0'' # []) = Inl No_valid_data
   \<and> read_and_parse_dat ([''log''] @ ''Inner_Iter | Residual'' # ''7 | 7.0'' # [''8 | 8.0''])
       = Inr \<lparr>frame_columns = [''Inner_Iter'', ''Residual''],
              frame_rows = [[Int_cell 8, Float_cell (Finite False 80 (- 1))]]\<rparr>"
proof -
  let ?hdr = "''Inner_Iter | Residual''"
  let ?cols = "[''Inner_Iter'', ''Residual'']"
  have 1: "\<forall>l \<in> set [''log'']. \<not> has_marker l" by code_simp
  have 2: "has_marker ?hdr" by code_simp
  have 3: "?cols = header_columns ?hdr" by code_simp
  have 4: "row_of ?cols ''7 | 7.0'' = Some [Int_cell 7, Float_cell (Finite False 70 (- 1))]"
    by code_simp
  have 5: "rows_of ?cols [] = []" by simp
  have 6: "rows_of ?cols [''8 | 8.0''] = [[Int_cell 8, Float_cell (Finite False 80 (- 1))]]"
    by code_simp
  note a = line_after_header_is_skipped[OF 1 2 3, of "''7 | 7.0''" "[]"]
  note b = line_after_header_is_skipped[OF 1 2 3, of "''7 | 7.0''" "[''8 | 8.0'']"]
  have 7: "read_and_parse_dat ([''log''] @ [?hdr]) = Inl No_valid_data" using a by simp
  have 8: "read_and_parse_dat ([''log''] @ ?hdr # ''7 | 7.0'' # []) = Inl No_valid_data"
    using a unfolding 5 by simp
  have 9: "read_and_parse_dat ([''log''] @ ?hdr # ''7 | 7.0'' # [''8 | 8.0''])
       = Inr \<lparr>frame_columns = ?cols,
              frame_rows = [[Int_cell 8, Float_cell (Finite False 80 (- 1))]]\<rparr>"
    using b unfolding 6 by simp
  have 0: "\<not> has_marker ''log''" using 1 by simp
  show ?thesis by (intro conjI) (rule 0 2 4 7 8 9)+
qed

text \<open>
  Claim C6. In the data section a line that is empty after trimming, or whose trimmed
  text starts with \<open>+\<close>, is skipped: it gives no row and no message, raises nothing,
  and the result is the one of the input without that line, so the rows after it are
  still there.
\<close>

theorem blank_and_rule_lines_are_skipped:
  assumes "\<forall>l \<in> set pfx. \<not> has_marker l" and "has_marker hdr"
    and "strip l = [] \<or> startswith (strip l) ''+''"
  shows "read_and_parse_dat (pfx @ hdr # sep # before @ l # after) =
         read_and_parse_dat (pfx @ hdr # sep # before @ after)
       \<and> row_of (header_columns hdr) l = None
       \<and> message_of (header_columns hdr) n l = []"
proof -
  let ?cols = "header_columns hdr"
  have r: "row_of ?cols l = None" using assms(3) by (rule skipped_line_no_row)
  then have "rows_of ?cols (before @ l # after) = rows_of ?cols (before @ after)"
    by (simp add: rows_of_append)
  then have "read_and_parse_dat (pfx @ hdr # sep # before @ l # after) =
         read_and_parse_dat (pfx @ hdr # sep # before @ after)"
    by (simp only: read_data_section[OF assms(1,2)])
  then show ?thesis using r skipped_line_no_message[OF assms(3)] by simp
qed

theorem blank_and_rule_lines_are_skipped_witness:
  "has_marker ''Inner_Iter | Residual''
   \<and> strip [CHR '' '', CHR 0x09, CHR 0x0A] = []
   \<and> startswith (strip ''  +-----+-----+'') ''+''
   \<and> read_and_parse_dat ([] @ ''Inner_Iter | Residual'' # ''---''
        # [''0 | 1.5''] @ [CHR '' '', CHR 0x09, CHR 0x0A] # [''1 | 0.5''])
      = Inr \<lparr>frame_columns = [''Inner_Iter'', ''Residual''],
             frame_rows = [[Int_cell 0, Float_cell (Finite False 15 (- 1))],
                           [Int_cell 1, Float_cell (Finite False 5 (- 1))]]\<rparr>
   \<and> read_and_parse_dat ([] @ ''Inner_Iter | Residual'' # ''---''
        # [''0 | 1.5''] @ ''  +-----+-----+'' # [''1 | 0.5''])
      = Inr \<lparr>frame_columns = [''Inner_Iter'', ''Residual''],
             frame_rows = [[Int_cell 0, Float_cell (Finite False 15 (- 1))],
                           [Int_cell 1, Float_cell (Finite False 5 (- 1))]]\<rparr>"
proof -
  let ?hdr = "''Inner_Iter | Residual''"
  let ?blank = "[CHR '' '', CHR 0x09, CHR 0x0A]"
  let ?rule = "''  +-----+-----+''"
  have 1: "\<forall>l \<in> set ([]::string list). \<not> has_marker l" by simp
  have 2: "has_marker ?hdr" by code_simp
  have 3: "strip ?blank = []" by code_simp
  have 4: "startswith (strip ?rule) ''+''" by code_simp
  have 5: "read_and_parse_dat ([] @ ?hdr # ''---'' # [''0 | 1.5''] @ [''1 | 0.5''])
      = Inr \<lparr>frame_columns = [''Inner_Iter'', ''Residual''],
             frame_rows = [[Int_cell 0, Float_cell (Finite False 15 (- 1))],
                           [Int_cell 1, Float_cell (Finite False 5 (- 1))]]\<rparr>" by code_simp
  have 6: "read_and_parse_dat ([] @ ?hdr # ''---'' # [''0 | 1.5''] @ ?blank # [''1 | 0.5''])
         = read_and_parse_dat ([] @ ?hdr # ''---'' # [''0 | 1.5''] @ [''1 | 0.5''])"
    using blank_and_rule_lines_are_skipped[OF 1 2 disjI1[OF 3], of "''---''" "[''0 | 1.5'']"
        "[''1 | 0.5'']" 0] by (rule conjunct1)
  have 7: "read_and_parse_dat ([] @ ?hdr # ''---'' # [''0 | 1.5''] @ ?rule # [''1 | 0.5''])
         = read_and_parse_dat ([] @ ?hdr # ''---'' # [''0 | 1.5''] @ [''1 | 0.5''])"
    using blank_and_rule_lines_are_skipped[OF 1 2 disjI2[OF 4], of "''---''" "[''0 | 1.5'']"
        "[''1 | 0.5'']" 0] by (rule conjunct1)
  show ?thesis
    by (intro conjI) (rule 2 3 4 trans[OF 6 5] trans[OF 7 5])+
qed

text \<open>
  Claim C7. Every row of a returned table has as many values as the table has column
  names; its first value is the integer \<open>int\<close> gives for the first field of some input
  line, and the others are the floats \<open>float\<close> gives for the remaining fields of that
  line.
\<close>

theorem rows_have_schema_shape:
  assumes "read_and_parse_dat ls = Inr t"
  shows "\<forall>row \<in> set (frame_rows t).
           length row = length (frame_columns t)
         \<and> (\<exists>l \<in> set ls. \<exists>v vs i xs.
               fields (strip l) = v # vs \<and> py_int v = Some i
             \<and> map py_float vs = map Some xs
             \<and> row = Int_cell i # map Float_cell xs)"
proof (cases "from_header ls")
  case Nil
  then show ?thesis using assms read_closed_form[of ls] by simp
next
  case (Cons hdr rest)
  let ?cols = "header_columns hdr"
  have t: "t = \<lparr>frame_columns = ?cols, frame_rows = rows_of ?cols (drop 1 rest)\<rparr>"
    using assms read_closed_form[of ls] Cons by (simp split: if_splits)
  have sub: "set (drop 1 rest) \<subseteq> set ls"
    using split_at_header(1)[OF Cons] set_drop_subset[of 1 rest]
    by (metis Un_iff set_append set_subset_Cons subsetI subset_trans)
  show ?thesis
  proof
    fix row assume "row \<in> set (frame_rows t)"
    then have "row \<in> set (rows_of ?cols (drop 1 rest))" using t by simp
    then obtain l where l: "l \<in> set (drop 1 rest)" "row_of ?cols l = Some row"
      using rows_of_member by blast
    have "l \<in> set ls" using l(1) sub by blast
    moreover have "length row = length (frame_columns t)" using row_shape[OF l(2)] t by simp
    moreover have "\<exists>v vs i xs. fields (strip l) = v # vs \<and> py_int v = Some i
             \<and> map py_float vs = map Some xs \<and> row = Int_cell i # map Float_cell xs"
      using row_shape[OF l(2)] by (rule conjunct2)
    ultimately show "length row = length (frame_columns t)
         \<and> (\<exists>l \<in> set ls. \<exists>v vs i xs.
               fields (strip l) = v # vs \<and> py_int v = Some i
             \<and> map py_float vs = map Some xs
             \<and> row = Int_cell i # map Float_cell xs)"
      by blast
  qed
qed

theorem rows_have_schema_shape_witness:
  "read_and_parse_dat [''Inner_Iter | Residual'', ''-----'', ''0 | 1.5'', ''1 | 0.002'', ''x | bad'']
     = Inr \<lparr>frame_columns = [''Inner_Iter'', ''Residual''],
            frame_rows = [[Int_cell 0, Float_cell (Finite False 15 (- 1))],
                          [Int_cell 1, Float_cell (Finite False 2 (- 3))]]\<rparr>
   \<and> map length [[Int_cell 0, Float_cell (Finite False 15 (- 1))],
                  [Int_cell 1, Float_cell (Finite False 2 (- 3))]]
       = [length [''Inner_Iter'', ''Residual''], length [''Inner_Iter'', ''Residual'']]"
proof -
  let ?ls = "[''Inner_Iter | Residual'', ''-----'', ''0 | 1.5'', ''1 | 0.002'', ''x | bad'']"
  let ?t = "\<lparr>frame_columns = [''Inner_Iter'', ''Residual''],
            frame_rows = [[Int_cell 0, Float_cell (Finite False 15 (- 1))],
                          [Int_cell 1, Float_cell (Finite False 2 (- 3))]]\<rparr>"
  have 1: "read_and_parse_dat ?ls = Inr ?t" by code_simp
  have "\<forall>row \<in> set (frame_rows ?t). length row = length (frame_columns ?t)"
    using rows_have_schema_shape[OF 1] by blast
  then show ?thesis using 1 by simp
qed

text \<open>
  Claim C8. The scan of a finite list of lines ends, and ends normally: the loop is a
  total function that returns a state, every line has been taken exactly once (the loop
  counts all of them but the one skipped after the header), and the function then
  returns a table or raises one of its two errors.
\<close>

theorem scan_reads_every_line_once:
  "\<exists>st. scan initial ls = Inr st
       \<and> line_number st + (if 2 \<le> length (from_header ls) then 1 else 0) = length ls
       \<and> (read_and_parse_dat ls = Inl Header_not_found
          \<or> read_and_parse_dat ls = Inl No_valid_data
          \<or> (\<exists>t. read_and_parse_dat ls = Inr t))"
proof (cases "from_header ls")
  case Nil
  then have n: "\<forall>l \<in> set ls. \<not> has_marker l" using from_header_Nil by blast
  have "scan initial ls = Inr (initial\<lparr>line_number := length ls\<rparr>)"
    using n by (rule scan_no_header)
  moreover have "read_and_parse_dat ls = Inl Header_not_found" using n by (rule read_no_header)
  ultimately show ?thesis using Nil by simp
next
  case (Cons hdr rest)
  let ?pfx = "takeWhile (\<lambda>l. \<not> has_marker l) ls"
  note s = split_at_header[OF Cons]
  have "scan initial (?pfx @ hdr # rest) =
    Inr \<lparr>data = rows_of (header_columns hdr) (drop 1 rest),
         columns = Some (header_columns hdr),
         in_data_section = True,
         line_number = Suc (length ?pfx) + length (drop 1 rest),
         printed = Header_found (Suc (length ?pfx)) (header_columns hdr)
                   # messages_from (header_columns hdr) (Suc (length ?pfx)) (drop 1 rest)\<rparr>"
    using s(2) s(3) by (rule scan_with_header)
  then obtain st where st: "scan initial ls = Inr st"
    "line_number st = Suc (length ?pfx) + length (drop 1 rest)"
    using s(1) by simp
  have "length ls = Suc (length ?pfx) + length rest"
    using arg_cong[OF s(1), of length] by simp
  then have "line_number st + (if 2 \<le> length (from_header ls) then 1 else 0) = length ls"
    using st(2) Cons by (cases rest) simp_all
  moreover have "read_and_parse_dat ls = Inl No_valid_data \<or> (\<exists>t. read_and_parse_dat ls = Inr t)"
    using read_closed_form[of ls] Cons by simp
  ultimately show ?thesis using st(1) by blast
qed

theorem scan_reads_every_line_once_witness:
  "\<exists>st. scan initial [''log'', ''Inner_Iter | Residual'', ''-----'', ''0 | 1.5'', ''x | bad''] = Inr st
       \<and> line_number st + 1 = 5"
proof -
  let ?ls = "[''log'', ''Inner_Iter | Residual'', ''-----'', ''0 | 1.5'', ''x | bad'']"
  have 1: "2 \<le> length (from_header ?ls)" by code_simp
  obtain st where "scan initial ?ls = Inr st"
    "line_number st + (if 2 \<le> length (from_header ?ls) then 1 else 0) = length ?ls"
    using scan_reads_every_line_once[of ?ls] by blast
  then have "scan initial ?ls = Inr st \<and> line_number st + 1 = 5" using 1 by simp
  then show ?thesis by (rule exI)
qed

text \<open>
  Claim C9. The header message shows the position of the header line, counted from 1.
  After it, the messages are those of the lines after the skipped one, in order, and the
  line at position \<open>p\<close> shows the number \<open>p - 1\<close> in its message: the skipped line is
  not counted.
\<close>

theorem skip_messages_report_one_less:
  assumes "\<forall>l \<in> set pfx. \<not> has_marker l" and "has_marker hdr"
    and "cols = header_columns hdr"
    and "ls = pfx @ hdr # rest"
  shows "printed_messages ls =
           Header_found (length pfx + 1) cols
           # concat (map (\<lambda>p. message_of cols (p - 1) (ls ! (p - 1)))
                         [length pfx + 3 ..< length ls + 1])
       \<and> ls ! (length pfx + 1 - 1) = hdr
       \<and> (\<forall>n l. \<forall>m \<in> set (message_of cols n l). reported m = n)"
proof -
  have p: "printed_messages ls =
           Header_found (length pfx + 1) cols
           # concat (map (\<lambda>p. message_of cols (p - 1) (ls ! (p - 1)))
                         [length pfx + 3 ..< length ls + 1])"
  proof (cases rest)
    case Nil
    then have "printed_messages ls = [Header_found (Suc (length pfx)) cols]"
      using printed_with_header[OF assms(1,2), of "[]"] assms(3,4) by simp
    moreover have "[length pfx + 3 ..< length ls + 1] = []" using Nil assms(4) by simp
    ultimately show ?thesis by simp
  next
    case (Cons sep rest')
    then have "ls = pfx @ hdr # sep # rest'" using assms(4) by simp
    then show ?thesis using assms(1,2,3) by (rule printed_positions[rotated 3])
  qed
  have "ls ! (length pfx + 1 - 1) = hdr" using assms(4) by simp
  then show ?thesis using p reported_message_of by simp
qed

theorem skip_messages_report_one_less_witness:
  "has_marker ''Inner_Iter | Residual''
   \<and> [''Inner_Iter | Residual'', ''-----'', ''0 | 1.5'', ''1 | 0.002'', ''x | bad''] ! (5 - 1) = ''x | bad''
   \<and> printed_messages [''Inner_Iter | Residual'', ''-----'', ''0 | 1.5'', ''1 | 0.002'', ''x | bad'']
      = [Header_found 1 [''Inner_Iter'', ''Residual''], Skipped_invalid 4 (Invalid_int ''x'')]"
proof -
  let ?hdr = "''Inner_Iter | Residual''"
  let ?cols = "[''Inner_Iter'', ''Residual'']"
  let ?rest = "[''0 | 1.5'', ''1 | 0.002'', ''x | bad'']"
  let ?ls = "[?hdr, ''-----'', ''0 | 1.5'', ''1 | 0.002'', ''x | bad'']"
  have 1: "\<forall>l \<in> set ([]::string list). \<not> has_marker l" by simp
  have 2: "has_marker ?hdr" by code_simp
  have 3: "?cols = header_columns ?hdr" by code_simp
  have 4: "?ls = [] @ ?hdr # ''-----'' # ?rest" by simp
  have 5: "[length ([]::string list) + 3 ..< length ?ls + 1] = [3, 4, 5]" by code_simp
  have 6: "concat (map (\<lambda>p. message_of ?cols (p - 1) (?ls ! (p - 1))) [3, 4, 5])
      = [Skipped_invalid 4 (Invalid_int ''x'')]" by code_simp
  have "printed_messages ?ls =
           Header_found (length ([]::string list) + 1) ?cols
           # concat (map (\<lambda>p. message_of ?cols (p - 1) (?ls ! (p - 1)))
                         [length ([]::string list) + 3 ..< length ?ls + 1])"
    using skip_messages_report_one_less[OF 1 2 3 4] by (rule conjunct1)
  then have 9: "printed_messages ?ls =
      [Header_found 1 ?cols, Skipped_invalid 4 (Invalid_int ''x'')]"
    unfolding 5 6 by simp
  have 10: "?ls ! (5 - 1) = ''x | bad''" by simp
  show ?thesis by (intro conjI) (rule 2 9 10)+
qed

text \<open>
  Claim C10. Any line whose trimmed text contains \<open>Inner_Iter\<close> anywhere is taken as
  the header, whatever its first name is: the table's columns are that line's pieces,
  and the first value of every row is the integer of the row's first field.
\<close>

theorem first_column_name_is_not_checked:
  assumes "\<forall>l \<in> set pfx. \<not> has_marker l"
    and "contains ''Inner_Iter'' (strip hdr)"
    and "rows_of (header_columns hdr) rest \<noteq> []"
  shows "\<exists>t. read_and_parse_dat (pfx @ hdr # sep # rest) = Inr t
           \<and> frame_columns t = header_columns hdr
           \<and> (\<forall>row \<in> set (frame_rows t). \<exists>i cells. row = Int_cell i # cells)"
proof -
  let ?cols = "header_columns hdr"
  have h: "has_marker hdr" using assms(2) by (simp add: has_marker_def)
  have r: "read_and_parse_dat (pfx @ hdr # sep # rest) =
      Inr \<lparr>frame_columns = ?cols, frame_rows = rows_of ?cols rest\<rparr>"
    using read_data_section[OF assms(1) h, of sep rest] assms(3) by simp
  have "\<forall>row \<in> set (rows_of ?cols rest). \<exists>i cells. row = Int_cell i # cells"
  proof
    fix row assume "row \<in> set (rows_of ?cols rest)"
    then obtain l where "row_of ?cols l = Some row" using rows_of_member by blast
    then show "\<exists>i cells. row = Int_cell i # cells" using row_shape by blast
  qed
  then show ?thesis using r by simp
qed

theorem first_column_name_is_not_checked_witness:
  "\<not> has_marker ''log''
   \<and> contains ''Inner_Iter'' (strip ''Residual | Inner_Iter'')
   \<and> contains ''Inner_Iter'' (strip ''see xInner_Iter_2 below'')
   \<and> (\<exists>t. read_and_parse_dat ([''log''] @ ''Residual | Inner_Iter'' # ''---'' # [''3 | 1.5'']) = Inr t
         \<and> frame_columns t = [''Residual'', ''Inner_Iter'']
         \<and> frame_rows t = [[Int_cell 3, Float_cell (Finite False 15 (- 1))]])
   \<and> (\<exists>t. read_and_parse_dat ([''log''] @ ''see xInner_Iter_2 below'' # ''---'' # [''42'']) = Inr t
         \<and> frame_columns t = [''see xInner_Iter_2 below'']
         \<and> frame_rows t = [[Int_cell 42]])"
proof -
  let ?h1 = "''Residual | Inner_Iter''"
  let ?h2 = "''see xInner_Iter_2 below''"
  have 1: "\<forall>l \<in> set [''log'']. \<not> has_marker l" by code_simp
  have 2: "contains ''Inner_Iter'' (strip ?h1)" by code_simp
  have 3: "contains ''Inner_Iter'' (strip ?h2)" by code_simp
  have 4: "rows_of (header_columns ?h1) [''3 | 1.5''] \<noteq> []" by code_simp
  have 5: "rows_of (header_columns ?h2) [''42''] \<noteq> []" by code_simp
  have 6: "header_columns ?h1 = [''Residual'', ''Inner_Iter'']" by code_simp
  have 7: "header_columns ?h2 = [''see xInner_Iter_2 below'']" by code_simp
  have 8: "read_and_parse_dat ([''log''] @ ?h1 # ''---'' # [''3 | 1.5''])
      = Inr \<lparr>frame_columns = [''Residual'', ''Inner_Iter''],
             frame_rows = [[Int_cell 3, Float_cell (Finite False 15 (- 1))]]\<rparr>" by code_simp
  have 9: "read_and_parse_dat ([''log''] @ ?h2 # ''---'' # [''42''])
      = Inr \<lparr>frame_columns = [''see xInner_Iter_2 below''],
             frame_rows = [[Int_cell 42]]\<rparr>" by code_simp
  obtain t1 where t1: "read_and_parse_dat ([''log''] @ ?h1 # ''---'' # [''3 | 1.5'']) = Inr t1"
    "frame_columns t1 = header_columns ?h1"
    using first_column_name_is_not_checked[OF 1 2 4, of "''---''"] by blast
  obtain t2 where t2: "read_and_parse_dat ([''log''] @ ?h2 # ''---'' # [''42'']) = Inr t2"
    "frame_columns t2 = header_columns ?h2"
    using first_column_name_is_not_checked[OF 1 3 5, of "''---''"] by blast
  have a: "frame_rows t1 = [[Int_cell 3, Float_cell (Finite False 15 (- 1))]]"
    using t1(1) unfolding 8 by auto
  have b: "frame_rows t2 = [[Int_cell 42]]" using t2(1) unfolding 9 by auto
  have c: "frame_columns t1 = [''Residual'', ''Inner_Iter'']" using t1(2) unfolding 6 .
  have d: "frame_columns t2 = [''see xInner_Iter_2 below'']" using t2(2) unfolding 7 .
  have e1: "\<exists>t. read_and_parse_dat ([''log''] @ ?h1 # ''---'' # [''3 | 1.5'']) = Inr t
         \<and> frame_columns t = [''Residual'', ''Inner_Iter'']
         \<and> frame_rows t = [[Int_cell 3, Float_cell (Finite False 15 (- 1))]]"
    by (intro exI[of _ t1] conjI) (rule t1(1) c a)+
  have e2: "\<exists>t. read_and_parse_dat ([''log''] @ ?h2 # ''---'' # [''42'']) = Inr t
         \<and> frame_columns t = [''see xInner_Iter_2 below'']
         \<and> frame_rows t = [[Int_cell 42]]"
    by (intro exI[of _ t2] conjI) (rule t2(1) d b)+
  show ?thesis
    using 1 2 3 e1 e2 by simp
qed

end
